theory Spec2Isabelle
  imports Main "HOL-Library.Sublist" "HOL-Library.Char_ord" "HOL-Library.List_Lexorder"
begin

section \<open>Snippet-marker analysis: the tokenizer, the nesting validator, the substring detector\<close>

text \<open>
  The development embeds two Node scripts. The first (\<^verbatim>\<open>parseTagEvents\<close>,
  \<^verbatim>\<open>findNestedTags\<close> and the accumulation loop of its \<^verbatim>\<open>main\<close>) tokenizes each file
  into START/END events and validates their nesting with a stack. The second
  (\<^verbatim>\<open>findSubstringTags\<close>) reports tag names contained in other tag names.

  A JavaScript string is modelled as a \<^typ>\<open>string\<close> whose characters stand for code units
  below 256. Objects are records; an array is a list whose last element is the one
  \<^verbatim>\<open>push\<close> added last, so \<^verbatim>\<open>stack[stack.length - 1]\<close> is \<^term>\<open>last\<close> and
  \<^verbatim>\<open>pop\<close> is \<^term>\<open>butlast\<close>.
\<close>

subsection \<open>Data\<close>

datatype event_type = START | END

text \<open>The object pushed by \<^verbatim>\<open>parseTagEvents\<close>; its field \<^verbatim>\<open>file\<close> is \<open>file'\<close> here.\<close>

record event =
  type :: event_type
  tag :: string
  line :: nat
  file' :: string

record nested_pair =
  outer :: event
  inner :: event
  depth :: nat

text \<open>
  The three shapes of error object; the constructor is the \<^verbatim>\<open>type\<close> field, the arguments
  are \<^verbatim>\<open>tag, line\<close>, or \<^verbatim>\<open>expected, got, startLine, endLine\<close>.
\<close>

datatype structural_error =
  UNMATCHED_END string nat
| MISMATCHED_END string string nat nat
| UNCLOSED_START string nat

text \<open>The three local arrays of \<^verbatim>\<open>findNestedTags\<close>.\<close>

record validator_state =
  stack :: "event list"
  nestedPairs :: "nested_pair list"
  errors :: "structural_error list"

text \<open>The object \<^verbatim>\<open>findNestedTags\<close> returns: \<^verbatim>\<open>{file, nestedPairs, errors, totalTags}\<close>.\<close>

record file_result =
  result_file :: string
  result_nestedPairs :: "nested_pair list"
  result_errors :: "structural_error list"
  totalTags :: nat

text \<open>The accumulators of \<^verbatim>\<open>main\<close>; a finding carries the relative path of its file.\<close>

record scan_state =
  allNested :: "(nested_pair \<times> string) list"
  allErrors :: "(structural_error \<times> string) list"
  filesWithTags :: nat

text \<open>A match object of \<^verbatim>\<open>RegExp.prototype.exec\<close>: its \<^verbatim>\<open>index\<close> and its group 1.\<close>

record regmatch =
  index :: nat
  capture :: string

text \<open>An element of \<^verbatim>\<open>allTags\<close> in the substring script: \<^verbatim>\<open>{tag, file, fullMatch}\<close>.\<close>

record start_tag =
  st_tag :: string
  st_file :: string
  fullMatch :: string

record substring_pair =
  substring :: string
  superstring :: string

subsection \<open>The tokenizer\<close>

text \<open>
  The class \<^verbatim>\<open>\s\<close> and the characters \<^verbatim>\<open>trim\<close> removes, among the code units below 256:
  tab, line feed, vertical tab, form feed, carriage return, space, no-break space.
\<close>

definition is_space :: "char \<Rightarrow> bool" where
  "is_space c = (let n = (of_char c :: nat) in
     n = 9 \<or> n = 10 \<or> n = 11 \<or> n = 12 \<or> n = 13 \<or> n = 32 \<or> n = 160)"

definition trim :: "string \<Rightarrow> string" where
  "trim s = rev (dropWhile is_space (rev (dropWhile is_space s)))"

text \<open>
  A greedy \<^verbatim>\<open>+\<close> over a character class: every way to take a non-empty run of
  characters of the class from the front of the input, the longest first, which is the
  order in which a backtracking matcher tries them.
\<close>

fun plus_splits :: "(char \<Rightarrow> bool) \<Rightarrow> string \<Rightarrow> (string \<times> string) list" where
  "plus_splits P [] = []"
| "plus_splits P (c # cs) =
     (if P c then map (\<lambda>(a, b). (c # a, b)) (plus_splits P cs) @ [([c], cs)] else [])"

text \<open>Backtracking: the first alternative whose continuation succeeds.\<close>

fun first_match :: "('a \<Rightarrow> 'b option) \<Rightarrow> 'a list \<Rightarrow> 'b option" where
  "first_match f [] = None"
| "first_match f (x # xs) = (case f x of Some y \<Rightarrow> Some y | None \<Rightarrow> first_match f xs)"

fun strip_literal :: "string \<Rightarrow> string \<Rightarrow> string option" where
  "strip_literal [] s = Some s"
| "strip_literal (p # ps) [] = None"
| "strip_literal (p # ps) (c # cs) = (if p = c then strip_literal ps cs else None)"

text \<open>
  The pattern \<^verbatim>\<open>\[KEYWORD\s+([^\]]+)\]\<close> anchored at the front of the input, for
  \<^verbatim>\<open>KEYWORD\<close> one of \<^verbatim>\<open>START\<close>, \<^verbatim>\<open>END\<close>: group 1 and the input after the match.
\<close>

definition match_here :: "string \<Rightarrow> string \<Rightarrow> (string \<times> string) option" where
  "match_here keyword s =
     (case strip_literal (CHR ''['' # keyword) s of
        None \<Rightarrow> None
      | Some r \<Rightarrow>
          first_match (\<lambda>(ws, r1).
            first_match (\<lambda>(cap, r2).
              (case r2 of
                 [] \<Rightarrow> None
               | c # r3 \<Rightarrow> if c = CHR '']'' then Some (cap, r3) else None))
              (plus_splits (\<lambda>c. c \<noteq> CHR '']'') r1))
            (plus_splits is_space r))"

text \<open>
  The loop \<^verbatim>\<open>while ((match = regex.exec(line)) !== null)\<close> of a global regex: each call
  finds the leftmost match at or after \<^verbatim>\<open>lastIndex\<close> and moves \<^verbatim>\<open>lastIndex\<close> past it.
  The arguments are the keyword, the offset reached and the input from that offset on.
\<close>

function exec_all :: "string \<Rightarrow> nat \<Rightarrow> string \<Rightarrow> regmatch list" where
  "exec_all keyword i s =
     (case match_here keyword s of
        Some (cap, rest) \<Rightarrow>
          \<lparr>index = i, capture = cap\<rparr> # exec_all keyword (i + (length s - length rest)) rest
      | None \<Rightarrow> (case s of [] \<Rightarrow> [] | c # cs \<Rightarrow> exec_all keyword (Suc i) cs))"
  by pat_completeness auto
termination
proof (relation "measure (\<lambda>(keyword, i, s). length s)")
  show "wf (measure (\<lambda>(keyword, i, s). length s))" by simp
next
  fix keyword :: string and i :: nat and s x2 cap rest
  assume m: "match_here keyword s = Some x2" and x2: "(cap, rest) = x2"
  have splits: "length b < length t" if "(a, b) \<in> set (plus_splits P t)" for P a b t
    using that
  proof (induction t arbitrary: a b)
    case Nil
    then show ?case by simp
  next
    case (Cons c cs)
    then show ?case by (fastforce split: if_splits)
  qed
  have found: "\<exists>x \<in> set xs. f x = Some y" if "first_match f xs = Some y"
    for f :: "string \<times> string \<Rightarrow> (string \<times> string) option" and xs y
    using that by (induction xs) (auto split: option.splits)
  have literal: "length r \<le> length t" if "strip_literal p t = Some r" for p t r
    using that by (induction p t rule: strip_literal.induct) (auto split: if_splits)
  from m x2 obtain r where r: "strip_literal (CHR ''['' # keyword) s = Some r"
    by (auto simp: match_here_def split: option.splits)
  with m x2 have "first_match (\<lambda>(ws, r1).
            first_match (\<lambda>(cap, r2).
              (case r2 of
                 [] \<Rightarrow> None
               | c # r3 \<Rightarrow> if c = CHR '']'' then Some (cap, r3) else None))
              (plus_splits (\<lambda>c. c \<noteq> CHR '']'') r1))
            (plus_splits is_space r) = Some (cap, rest)"
    by (simp add: match_here_def)
  from found [OF this] obtain ws r1 where w: "(ws, r1) \<in> set (plus_splits is_space r)"
    and f: "first_match (\<lambda>(cap, r2).
              (case r2 of
                 [] \<Rightarrow> None
               | c # r3 \<Rightarrow> if c = CHR '']'' then Some (cap, r3) else None))
              (plus_splits (\<lambda>c. c \<noteq> CHR '']'') r1) = Some (cap, rest)"
    by auto
  from found [OF f]
  have c: "(cap, CHR '']'' # rest) \<in> set (plus_splits (\<lambda>c. c \<noteq> CHR '']'') r1)"
    by (auto split: list.splits if_splits)
  from splits [OF w] splits [OF c] literal [OF r] have "length rest < length s" by simp
  then show "((keyword, i + (length s - length rest), rest), keyword, i, s)
      \<in> measure (\<lambda>(keyword, i, s). length s)"
    by simp
next
  fix keyword :: string and i :: nat and s :: string and c cs
  assume "s = c # cs"
  then show "((keyword, Suc i, cs), keyword, i, s) \<in> measure (\<lambda>(keyword, i, s). length s)"
    by simp
qed

declare exec_all.simps [simp del]

text \<open>
  The body of \<^verbatim>\<open>lines.forEach\<close>: every START match of the line, then every END match
  of the line.
\<close>

definition line_events :: "string \<Rightarrow> nat \<Rightarrow> string \<Rightarrow> event list" where
  "line_events filePath lineNum l =
     map (\<lambda>m. \<lparr>type = START, tag = trim (capture m), line = lineNum, file' = filePath\<rparr>)
       (exec_all ''START'' 0 l)
     @ map (\<lambda>m. \<lparr>type = END, tag = trim (capture m), line = lineNum, file' = filePath\<rparr>)
       (exec_all ''END'' 0 l)"

fun forEach_lines :: "string \<Rightarrow> nat \<Rightarrow> string list \<Rightarrow> event list" where
  "forEach_lines filePath i [] = []"
| "forEach_lines filePath i (l # ls) =
     line_events filePath (i + 1) l @ forEach_lines filePath (Suc i) ls"

text \<open>\<^verbatim>\<open>content.split('\n')\<close>: the empty text is one empty line.\<close>

fun split_newline :: "string \<Rightarrow> string list" where
  "split_newline [] = [[]]"
| "split_newline (c # cs) =
     (if c = CHR 0x0A then [] # split_newline cs
      else (case split_newline cs of [] \<Rightarrow> [[c]] | l # ls \<Rightarrow> (c # l) # ls))"

text \<open>
  \<^verbatim>\<open>fs.readFileSync\<close> is the parameter \<open>readFile\<close>: \<^term>\<open>None\<close> when it throws,
  which the \<^verbatim>\<open>catch\<close> turns into no events.
\<close>

definition parseTagEvents :: "(string \<Rightarrow> string option) \<Rightarrow> string \<Rightarrow> event list" where
  "parseTagEvents readFile filePath =
     (case readFile filePath of
        None \<Rightarrow> []
      | Some content \<Rightarrow> forEach_lines filePath 0 (split_newline content))"

subsection \<open>The nesting validator\<close>

text \<open>The callback of \<^verbatim>\<open>events.forEach\<close>.\<close>

definition process_event :: "validator_state \<Rightarrow> event \<Rightarrow> validator_state" where
  "process_event s event =
     (case type event of
        START \<Rightarrow>
          s\<lparr>nestedPairs :=
              (if length (stack s) > 0
               then nestedPairs s @
                 [\<lparr>outer = last (stack s), inner = event, depth = length (stack s) + 1\<rparr>]
               else nestedPairs s),
            stack := stack s @ [event]\<rparr>
      | END \<Rightarrow>
          (if length (stack s) = 0
           then s\<lparr>errors := errors s @ [UNMATCHED_END (tag event) (line event)]\<rparr>
           else
             (let top = last (stack s) in
              s\<lparr>errors :=
                  (if tag top \<noteq> tag event
                   then errors s @
                     [MISMATCHED_END (tag top) (tag event) (line top) (line event)]
                   else errors s),
                stack := butlast (stack s)\<rparr>)))"

definition initial_state :: validator_state where
  "initial_state = \<lparr>stack = [], nestedPairs = [], errors = []\<rparr>"

definition process_events :: "event list \<Rightarrow> validator_state" where
  "process_events events = foldl process_event initial_state events"

text \<open>The loop \<^verbatim>\<open>stack.forEach(unclosed => errors.push(...))\<close>.\<close>

definition unclosed_errors :: "event list \<Rightarrow> structural_error list" where
  "unclosed_errors st = map (\<lambda>unclosed. UNCLOSED_START (tag unclosed) (line unclosed)) st"

text \<open>\<^verbatim>\<open>findNestedTags\<close> after its early return, on the events of the file.\<close>

definition analyse_events :: "string \<Rightarrow> event list \<Rightarrow> file_result" where
  "analyse_events filePath events =
     (let s = process_events events in
      \<lparr>result_file = filePath,
       result_nestedPairs = nestedPairs s,
       result_errors = errors s @ unclosed_errors (stack s),
       totalTags = length events\<rparr>)"

definition findNestedTags :: "(string \<Rightarrow> string option) \<Rightarrow> string \<Rightarrow> file_result option" where
  "findNestedTags readFile filePath =
     (let events = parseTagEvents readFile filePath in
      if length events = 0 then None else Some (analyse_events filePath events))"

text \<open>
  The callback of \<^verbatim>\<open>allFiles.forEach\<close> in \<^verbatim>\<open>main\<close>, and the loop. \<open>relative\<close> stands for
  \<^verbatim>\<open>path.relative(rootDir, _)\<close>.
\<close>

definition scan_file ::
  "(string \<Rightarrow> string option) \<Rightarrow> (string \<Rightarrow> string) \<Rightarrow> scan_state \<Rightarrow> string \<Rightarrow> scan_state" where
  "scan_file readFile relative acc f =
     (case findNestedTags readFile f of
        None \<Rightarrow> acc
      | Some result \<Rightarrow>
          if totalTags result > 0
          then acc\<lparr>filesWithTags := filesWithTags acc + 1,
                 allNested :=
                   (if length (result_nestedPairs result) > 0
                    then allNested acc @ map (\<lambda>p. (p, relative f)) (result_nestedPairs result)
                    else allNested acc),
                 allErrors :=
                   (if length (result_errors result) > 0
                    then allErrors acc @ map (\<lambda>e. (e, relative f)) (result_errors result)
                    else allErrors acc)\<rparr>
          else acc)"

definition scan_files ::
  "(string \<Rightarrow> string option) \<Rightarrow> (string \<Rightarrow> string) \<Rightarrow> string list \<Rightarrow> scan_state" where
  "scan_files readFile relative allFiles =
     foldl (scan_file readFile relative)
       \<lparr>allNested = [], allErrors = [], filesWithTags = 0\<rparr> allFiles"

subsection \<open>The substring detector\<close>

text \<open>\<^verbatim>\<open>new Set(xs)\<close> spread into an array: the distinct elements in order of first occurrence.\<close>

fun set_add_all :: "'a list \<Rightarrow> 'a list \<Rightarrow> 'a list" where
  "set_add_all seen [] = seen"
| "set_add_all seen (x # xs) = set_add_all (if x \<in> set seen then seen else seen @ [x]) xs"

fun starts_with :: "string \<Rightarrow> string \<Rightarrow> bool" where
  "starts_with s [] = True"
| "starts_with [] (p # ps) = False"
| "starts_with (c # cs) (p # ps) = (c = p \<and> starts_with cs ps)"

text \<open>\<^verbatim>\<open>s.includes(sub)\<close>: \<open>sub\<close> occurs at some offset of \<open>s\<close>.\<close>

fun js_includes :: "string \<Rightarrow> string \<Rightarrow> bool" where
  "js_includes [] sub = starts_with [] sub"
| "js_includes (c # cs) sub = (starts_with (c # cs) sub \<or> js_includes cs sub)"

text \<open>
  \<^verbatim>\<open>findSubstringTags\<close>. The default \<^verbatim>\<open>sort\<close> of strings compares code units, which
  is the lexicographic order of \<^typ>\<open>string\<close>.
\<close>

definition findSubstringTags :: "start_tag list \<Rightarrow> substring_pair list" where
  "findSubstringTags allTags =
     (let uniqueTags = sort (set_add_all [] (map st_tag allTags)) in
      [\<lparr>substring = uniqueTags ! i, superstring = uniqueTags ! j\<rparr>.
         i \<leftarrow> [0..<length uniqueTags], j \<leftarrow> [0..<length uniqueTags], i \<noteq> j,
         js_includes (uniqueTags ! j) (uniqueTags ! i) \<and> uniqueTags ! i \<noteq> uniqueTags ! j])"

subsection \<open>Notions of the specification\<close>

text \<open>
  The number of Start events of a sequence that have not yet been closed at its end, an
  End closing the most recently opened region that is still open, if there is one.
\<close>

definition unclosed_starts :: "event list \<Rightarrow> nat" where
  "unclosed_starts es =
     foldl (\<lambda>n e. case type e of START \<Rightarrow> Suc n | END \<Rightarrow> (if n = 0 then 0 else n - 1)) 0 es"

text \<open>
  Properly nested event sequences: nothing; a region, which is a Start, a properly nested
  sequence and an End with the tag of the Start; one properly nested sequence after another.
\<close>

inductive properly_nested :: "event list \<Rightarrow> bool" where
  pn_empty: "properly_nested []"
| pn_region: "properly_nested es \<Longrightarrow> type s = START \<Longrightarrow> type e = END \<Longrightarrow> tag s = tag e
     \<Longrightarrow> properly_nested (s # es @ [e])"
| pn_sequence: "properly_nested es1 \<Longrightarrow> properly_nested es2 \<Longrightarrow> properly_nested (es1 @ es2)"

section \<open>Auxiliary facts\<close>

subsection \<open>The pattern matcher\<close>

lemma plus_splits_sound:
  "(a, b) \<in> set (plus_splits P s) \<Longrightarrow> s = a @ b \<and> a \<noteq> [] \<and> (\<forall>c \<in> set a. P c)"
proof (induction s arbitrary: a b)
  case Nil
  then show ?case by simp
next
  case (Cons c cs)
  then show ?case by (fastforce split: if_splits)
qed

lemma first_match_SomeD:
  "first_match f xs = Some y \<Longrightarrow> \<exists>x \<in> set xs. f x = Some y"
  by (induction xs) (auto split: option.splits)

lemma strip_literal_sound: "strip_literal p s = Some r \<Longrightarrow> s = p @ r"
  by (induction p s rule: strip_literal.induct) (auto split: if_splits)

lemma match_here_SomeD:
  assumes "match_here keyword s = Some (cap, rest)"
  shows "\<exists>r ws r1. strip_literal (CHR ''['' # keyword) s = Some r
           \<and> (ws, r1) \<in> set (plus_splits is_space r)
           \<and> (cap, CHR '']'' # rest) \<in> set (plus_splits (\<lambda>c. c \<noteq> CHR '']'') r1)"
proof -
  from assms obtain r where r: "strip_literal (CHR ''['' # keyword) s = Some r"
    by (auto simp: match_here_def split: option.splits)
  with assms have "\<exists>x \<in> set (plus_splits is_space r).
      (case x of (ws, r1) \<Rightarrow>
            first_match (\<lambda>(cap, r2).
              (case r2 of
                 [] \<Rightarrow> None
               | c # r3 \<Rightarrow> if c = CHR '']'' then Some (cap, r3) else None))
              (plus_splits (\<lambda>c. c \<noteq> CHR '']'') r1)) = Some (cap, rest)"
    by (intro first_match_SomeD) (simp add: match_here_def)
  then obtain ws r1 where w: "(ws, r1) \<in> set (plus_splits is_space r)"
    and f: "first_match (\<lambda>(cap, r2).
              (case r2 of
                 [] \<Rightarrow> None
               | c # r3 \<Rightarrow> if c = CHR '']'' then Some (cap, r3) else None))
              (plus_splits (\<lambda>c. c \<noteq> CHR '']'') r1) = Some (cap, rest)"
    by auto
  from first_match_SomeD [OF f]
  have "(cap, CHR '']'' # rest) \<in> set (plus_splits (\<lambda>c. c \<noteq> CHR '']'') r1)"
    by (auto split: list.splits if_splits)
  with r w show ?thesis by blast
qed

text \<open>
  A match is an occurrence of the bracket form: the keyword, some whitespace, a non-empty
  capture free of closing brackets, the closing bracket.
\<close>

lemma match_here_sound:
  assumes "match_here keyword s = Some (cap, rest)"
  shows "\<exists>ws. s = CHR ''['' # keyword @ ws @ cap @ CHR '']'' # rest
           \<and> ws \<noteq> [] \<and> (\<forall>c \<in> set ws. is_space c)
           \<and> cap \<noteq> [] \<and> CHR '']'' \<notin> set cap"
proof -
  from match_here_SomeD [OF assms] obtain r ws r1
    where r: "strip_literal (CHR ''['' # keyword) s = Some r"
      and w: "(ws, r1) \<in> set (plus_splits is_space r)"
      and c: "(cap, CHR '']'' # rest) \<in> set (plus_splits (\<lambda>c. c \<noteq> CHR '']'') r1)"
    by blast
  from strip_literal_sound [OF r] plus_splits_sound [OF w] plus_splits_sound [OF c]
  have "s = CHR ''['' # keyword @ ws @ cap @ CHR '']'' # rest"
    and "ws \<noteq> []" and "\<forall>c \<in> set ws. is_space c" and "cap \<noteq> []" and "CHR '']'' \<notin> set cap"
    by auto
  then show ?thesis by blast
qed



lemma exec_all_sound:
  "m \<in> set (exec_all keyword i s) \<Longrightarrow>
     \<exists>pre ws rest. s = pre @ CHR ''['' # keyword @ ws @ capture m @ CHR '']'' # rest
       \<and> index m = i + length pre
       \<and> ws \<noteq> [] \<and> (\<forall>c \<in> set ws. is_space c)
       \<and> capture m \<noteq> [] \<and> CHR '']'' \<notin> set (capture m)"
proof (induction keyword i s rule: exec_all.induct)
  case (1 keyword i s)
  note unfold = exec_all.simps [of keyword i s]
  show ?case
  proof (cases "match_here keyword s")
    case None
    with "1.prems" obtain c cs where s: "s = c # cs" and m: "m \<in> set (exec_all keyword (Suc i) cs)"
      unfolding unfold by (auto split: list.splits)
    from "1.IH"(1) [OF None s m] obtain pre ws rest
      where "cs = pre @ CHR ''['' # keyword @ ws @ capture m @ CHR '']'' # rest"
        "index m = Suc i + length pre" "ws \<noteq> []" "\<forall>c \<in> set ws. is_space c"
        "capture m \<noteq> []" "CHR '']'' \<notin> set (capture m)"
      by blast
    with s have "s = (c # pre) @ CHR ''['' # keyword @ ws @ capture m @ CHR '']'' # rest"
      "index m = i + length (c # pre)"
      by simp_all
    with \<open>ws \<noteq> []\<close> \<open>\<forall>c \<in> set ws. is_space c\<close> \<open>capture m \<noteq> []\<close> \<open>CHR '']'' \<notin> set (capture m)\<close>
    show ?thesis by blast
  next
    case (Some a)
    obtain cap rest where a: "a = (cap, rest)" by (cases a)
    from Some a have mh: "match_here keyword s = Some (cap, rest)" by simp
    from match_here_sound [OF mh] obtain ws
      where s: "s = CHR ''['' # keyword @ ws @ cap @ CHR '']'' # rest"
        and ws: "ws \<noteq> []" "\<forall>c \<in> set ws. is_space c" and cap: "cap \<noteq> []" "CHR '']'' \<notin> set cap"
      by blast
    from "1.prems" mh
    consider "m = \<lparr>index = i, capture = cap\<rparr>"
      | "m \<in> set (exec_all keyword (i + (length s - length rest)) rest)"
      unfolding unfold by auto
    then show ?thesis
    proof cases
      case 1
      with s ws cap have "s = [] @ CHR ''['' # keyword @ ws @ capture m @ CHR '']'' # rest"
        "index m = i + length ([]::string)" "capture m \<noteq> []" "CHR '']'' \<notin> set (capture m)"
        by simp_all
      with ws show ?thesis by blast
    next
      case 2
      from "1.IH"(2) [OF Some a [symmetric] 2] obtain pre ws' rest'
        where r: "rest = pre @ CHR ''['' # keyword @ ws' @ capture m @ CHR '']'' # rest'"
          "index m = i + (length s - length rest) + length pre" "ws' \<noteq> []"
          "\<forall>c \<in> set ws'. is_space c" "capture m \<noteq> []" "CHR '']'' \<notin> set (capture m)"
        by blast
      let ?pre = "CHR ''['' # keyword @ ws @ cap @ CHR '']'' # pre"
      from s r(1) have "s = ?pre @ CHR ''['' # keyword @ ws' @ capture m @ CHR '']'' # rest'"
        by simp
      moreover from s r(2) have "index m = i + length ?pre" by simp
      ultimately show ?thesis using r(3-6) by blast
    qed
  qed
qed

subsection \<open>Lines and their events\<close>

lemma line_events_line:
  "e \<in> set (line_events filePath n l) \<Longrightarrow> line e = n \<and> file' e = filePath"
  by (auto simp: line_events_def)

lemma line_events_mem:
  "e \<in> set (line_events filePath n l) \<Longrightarrow>
     \<exists>m \<in> set (exec_all (case type e of START \<Rightarrow> ''START'' | END \<Rightarrow> ''END'') 0 l).
       tag e = trim (capture m)"
  by (auto simp: line_events_def)

lemma forEach_lines_range:
  "e \<in> set (forEach_lines filePath i ls) \<Longrightarrow> i < line e \<and> line e \<le> i + length ls"
proof (induction ls arbitrary: i)
  case Nil
  then show ?case by simp
next
  case (Cons l ls)
  then show ?case by (fastforce dest: line_events_line)
qed



lemma forEach_lines_filter:
  "n < length ls \<Longrightarrow>
     filter (\<lambda>e. line e = i + n + 1) (forEach_lines filePath i ls) =
       line_events filePath (i + n + 1) (ls ! n)"
proof (induction ls arbitrary: i n)
  case Nil
  then show ?case by simp
next
  case (Cons l ls)
  show ?case
  proof (cases n)
    case 0
    have "filter (\<lambda>e. line e = i + 1) (line_events filePath (i + 1) l) =
        line_events filePath (i + 1) l"
      by (rule filter_True) (simp add: line_events_line)
    moreover have "filter (\<lambda>e. line e = i + 1) (forEach_lines filePath (Suc i) ls) = []"
      by (rule filter_False) (fastforce dest: forEach_lines_range)
    ultimately show ?thesis using 0 by simp
  next
    case (Suc k)
    have "filter (\<lambda>e. line e = i + n + 1) (line_events filePath (i + 1) l) = []"
      using Suc by (intro filter_False) (auto dest: line_events_line)
    moreover have "filter (\<lambda>e. line e = Suc i + k + 1) (forEach_lines filePath (Suc i) ls) =
       line_events filePath (Suc i + k + 1) (ls ! k)"
      using Cons.prems Suc by (intro Cons.IH) simp
    ultimately show ?thesis using Suc by simp
  qed
qed

lemma forEach_lines_mem:
  assumes "e \<in> set (forEach_lines filePath 0 ls)"
  shows "1 \<le> line e \<and> line e \<le> length ls
         \<and> e \<in> set (line_events filePath (line e) (ls ! (line e - 1)))"
proof -
  from forEach_lines_range [OF assms] have r: "0 < line e" "line e \<le> length ls" by simp_all
  then have k: "line e - 1 < length ls" by simp
  from forEach_lines_filter [OF k, of 0 filePath] r
  have "filter (\<lambda>x. line x = line e) (forEach_lines filePath 0 ls) =
          line_events filePath (line e) (ls ! (line e - 1))"
    by simp
  moreover from assms have "e \<in> set (filter (\<lambda>x. line x = line e) (forEach_lines filePath 0 ls))"
    by simp
  ultimately show ?thesis using r by simp
qed

text \<open>Where an event comes from: an occurrence of its bracket form on its line.\<close>

lemma event_origin:
  assumes "e \<in> set (parseTagEvents readFile filePath)"
  shows "\<exists>content pre ws cap rest.
       readFile filePath = Some content
       \<and> 1 \<le> line e \<and> line e \<le> length (split_newline content)
       \<and> split_newline content ! (line e - 1) =
           pre @ CHR ''['' # (case type e of START \<Rightarrow> ''START'' | END \<Rightarrow> ''END'') @ ws @ cap
             @ CHR '']'' # rest
       \<and> ws \<noteq> [] \<and> (\<forall>c \<in> set ws. is_space c)
       \<and> cap \<noteq> [] \<and> CHR '']'' \<notin> set cap
       \<and> tag e = trim cap"
proof -
  from assms obtain content where c: "readFile filePath = Some content"
    by (cases "readFile filePath") (simp_all add: parseTagEvents_def)
  with assms have e: "e \<in> set (forEach_lines filePath 0 (split_newline content))"
    by (simp add: parseTagEvents_def)
  let ?l = "split_newline content ! (line e - 1)"
  let ?kw = "case type e of START \<Rightarrow> ''START'' | END \<Rightarrow> ''END''"
  from forEach_lines_mem [OF e]
  have r: "1 \<le> line e" "line e \<le> length (split_newline content)"
    and le: "e \<in> set (line_events filePath (line e) ?l)"
    by simp_all
  from line_events_mem [OF le] obtain m
    where m: "m \<in> set (exec_all ?kw 0 ?l)" and t: "tag e = trim (capture m)"
    by blast
  from exec_all_sound [OF m] obtain pre ws rest
    where s: "?l = pre @ CHR ''['' # ?kw @ ws @ capture m @ CHR '']'' # rest"
      and w: "ws \<noteq> []" "\<forall>c \<in> set ws. is_space c"
      and cp: "capture m \<noteq> []" "CHR '']'' \<notin> set (capture m)"
    by blast
  from c r s w cp t show ?thesis by blast
qed

lemma split_newline_chars: "l \<in> set (split_newline s) \<Longrightarrow> set l \<subseteq> set s"
proof (induction s arbitrary: l)
  case Nil
  then show ?case by simp
next
  case (Cons c cs)
  then show ?case by (fastforce split: if_splits list.splits)
qed

lemma no_bracket_no_events:
  assumes "readFile filePath = Some content" and "CHR ''['' \<notin> set content"
  shows "parseTagEvents readFile filePath = []"
proof (rule ccontr)
  assume "parseTagEvents readFile filePath \<noteq> []"
  then obtain e where "e \<in> set (parseTagEvents readFile filePath)"
    by (cases "parseTagEvents readFile filePath") auto
  from event_origin [OF this] assms(1) obtain pre r
    where b: "1 \<le> line e" "line e \<le> length (split_newline content)"
      and l: "split_newline content ! (line e - 1) = pre @ CHR ''['' # r"
    by auto
  from b have "line e - 1 < length (split_newline content)" by simp
  then have "split_newline content ! (line e - 1) \<in> set (split_newline content)"
    by (rule nth_mem)
  moreover from l have "CHR ''['' \<in> set (split_newline content ! (line e - 1))"
    by simp
  ultimately show False using split_newline_chars assms(2) by blast
qed

subsection \<open>The validator, step by step\<close>

lemma process_event_START:
  "type e = START \<Longrightarrow> process_event s e =
     s\<lparr>nestedPairs :=
         (if stack s \<noteq> []
          then nestedPairs s @ [\<lparr>outer = last (stack s), inner = e, depth = length (stack s) + 1\<rparr>]
          else nestedPairs s),
       stack := stack s @ [e]\<rparr>"
  by (simp add: process_event_def)

lemma process_event_END:
  "type e = END \<Longrightarrow> process_event s e =
     (if stack s = [] then s\<lparr>errors := errors s @ [UNMATCHED_END (tag e) (line e)]\<rparr>
      else s\<lparr>errors :=
              (if tag (last (stack s)) \<noteq> tag e
               then errors s @
                 [MISMATCHED_END (tag (last (stack s))) (tag e) (line (last (stack s))) (line e)]
               else errors s),
            stack := butlast (stack s)\<rparr>)"
  by (simp add: process_event_def Let_def)

lemma process_events_snoc:
  "process_events (es @ [e]) = process_event (process_events es) e"
  by (simp add: process_events_def)

lemma nestedPairs_process_event_prefix:
  "\<exists>new. nestedPairs (process_event s e) = nestedPairs s @ new"
  by (cases "type e") (simp_all add: process_event_START process_event_END)

lemma nestedPairs_foldl_prefix:
  "\<exists>new. nestedPairs (foldl process_event s es) = nestedPairs s @ new"
proof (induction es arbitrary: s)
  case Nil
  then show ?case by simp
next
  case (Cons e es)
  from Cons [of "process_event s e"] nestedPairs_process_event_prefix [of s e]
  show ?case by auto
qed

lemma nestedPairs_foldl_take:
  "take (length (nestedPairs s)) (nestedPairs (foldl process_event s es)) = nestedPairs s"
  using nestedPairs_foldl_prefix [of s es] by auto

lemma stack_subseq_step:
  "subseq (stack s) es \<Longrightarrow> subseq (stack (process_event s e)) (es @ [e])"
proof (cases "type e")
  case START
  assume "subseq (stack s) es"
  then have "subseq (stack s @ [e]) (es @ [e])" by (simp add: list_emb_append_mono)
  with START show ?thesis by (simp add: process_event_START)
next
  case END
  assume a: "subseq (stack s) es"
  have "subseq (butlast (stack s)) (stack s)" by (metis sublist_butlast sublist_imp_subseq)
  with a have "subseq (butlast (stack s)) es" using subseq_order.order_trans by blast
  with a END show ?thesis by (auto simp: process_event_END)
qed

lemma stack_subseq_events: "subseq (stack (process_events es)) es"
proof (induction es rule: rev_induct)
  case Nil
  then show ?case by (simp add: process_events_def initial_state_def)
next
  case (snoc e es)
  then show ?case using stack_subseq_step [of "process_events es" es e]
    by (simp add: process_events_def)
qed

lemma no_unclosed_step:
  "UNCLOSED_START t l \<notin> set (errors s) \<Longrightarrow>
     UNCLOSED_START t l \<notin> set (errors (process_event s e))"
  by (cases "type e") (simp_all add: process_event_START process_event_END)

lemma no_unclosed_in_loop: "UNCLOSED_START t l \<notin> set (errors (process_events es))"
proof (induction es rule: rev_induct)
  case Nil
  then show ?case by (simp add: process_events_def initial_state_def)
next
  case (snoc e es)
  then show ?case using no_unclosed_step [of t l "process_events es" e]
    by (simp add: process_events_def)
qed

lemma unclosed_starts_snoc:
  "unclosed_starts (es @ [e]) =
     (case type e of START \<Rightarrow> Suc (unclosed_starts es)
      | END \<Rightarrow> (if unclosed_starts es = 0 then 0 else unclosed_starts es - 1))"
  by (cases "type e") (simp_all add: unclosed_starts_def)

lemma stack_size_unclosed_starts:
  "length (stack (process_events es)) = unclosed_starts es"
proof (induction es rule: rev_induct)
  case Nil
  then show ?case by (simp add: process_events_def initial_state_def unclosed_starts_def)
next
  case (snoc e es)
  then show ?case
    by (cases "type e")
      (auto simp: process_events_snoc unclosed_starts_snoc process_event_START
        process_event_END)
qed

lemma unclosed_starts_le_starts:
  "unclosed_starts es \<le> length (filter (\<lambda>e. type e = START) es)"
proof (induction es rule: rev_induct)
  case Nil
  then show ?case by (simp add: unclosed_starts_def)
next
  case (snoc e es)
  then show ?case by (cases "type e") (auto simp: unclosed_starts_snoc)
qed

lemma nested_pair_position:
  "p \<in> set (nestedPairs (process_events es)) \<Longrightarrow>
     \<exists>pre post. es = pre @ inner p # post \<and> type (inner p) = START
       \<and> depth p = unclosed_starts (pre @ [inner p])"
proof (induction es rule: rev_induct)
  case Nil
  then show ?case by (simp add: process_events_def initial_state_def)
next
  case (snoc e es)
  show ?case
  proof (cases "p \<in> set (nestedPairs (process_events es))")
    case True
    from snoc.IH [OF True] obtain pre post
      where "es = pre @ inner p # post" "type (inner p) = START"
        "depth p = unclosed_starts (pre @ [inner p])"
      by blast
    then have "es @ [e] = pre @ inner p # (post @ [e])" by simp
    with \<open>type (inner p) = START\<close> \<open>depth p = unclosed_starts (pre @ [inner p])\<close>
    show ?thesis by blast
  next
    case False
    with snoc.prems have st: "type e = START"
      by (cases "type e") (simp_all add: process_events_snoc process_event_END split: if_splits)
    with False snoc.prems
    have p: "p = \<lparr>outer = last (stack (process_events es)), inner = e,
                 depth = length (stack (process_events es)) + 1\<rparr>"
      by (simp add: process_events_snoc process_event_START split: if_splits)
    then have "depth p = unclosed_starts (es @ [inner p])"
      using st by (simp add: unclosed_starts_snoc stack_size_unclosed_starts)
    moreover have "es @ [e] = es @ inner p # []" using p by simp
    moreover have "type (inner p) = START" using p st by simp
    ultimately show ?thesis by blast
  qed
qed

lemma foldl_properly_nested:
  "properly_nested es \<Longrightarrow>
     stack (foldl process_event s es) = stack s \<and> errors (foldl process_event s es) = errors s"
proof (induction es arbitrary: s rule: properly_nested.induct)
  case pn_empty
  then show ?case by simp
next
  case (pn_region es st en)
  let ?s1 = "process_event s st"
  let ?s2 = "foldl process_event ?s1 es"
  have s1: "stack ?s1 = stack s @ [st]" "errors ?s1 = errors s"
    using pn_region.hyps by (simp_all add: process_event_START)
  have s2: "stack ?s2 = stack s @ [st]" "errors ?s2 = errors s"
    using pn_region.IH [of ?s1] s1 by simp_all
  have "foldl process_event s (st # es @ [en]) = process_event ?s2 en" by simp
  moreover have "stack (process_event ?s2 en) = stack s" "errors (process_event ?s2 en) = errors s"
    using pn_region.hyps s2 by (simp_all add: process_event_END)
  ultimately show ?case by simp
next
  case (pn_sequence es1 es2)
  then show ?case by simp
qed

subsection \<open>The substring detector\<close>

lemma set_add_all_set: "set (set_add_all seen xs) = set seen \<union> set xs"
  by (induction xs arbitrary: seen) auto

lemma set_add_all_distinct: "distinct seen \<Longrightarrow> distinct (set_add_all seen xs)"
  by (induction xs arbitrary: seen) auto

lemma uniqueTags_props:
  "set (sort (set_add_all [] (map st_tag allTags))) = st_tag ` set allTags"
  "distinct (sort (set_add_all [] (map st_tag allTags)))"
  by (simp_all add: set_add_all_set set_add_all_distinct)

lemma starts_with_iff: "starts_with s p \<longleftrightarrow> (\<exists>ss. s = p @ ss)"
  by (induction s p rule: starts_with.induct) auto

lemma js_includes_iff: "js_includes s sub \<longleftrightarrow> (\<exists>ps ss. s = ps @ sub @ ss)"
proof (induction s)
  case Nil
  then show ?case by (simp add: starts_with_iff)
next
  case (Cons c cs)
  show ?case
  proof
    assume "js_includes (c # cs) sub"
    then consider "starts_with (c # cs) sub" | "js_includes cs sub" by auto
    then show "\<exists>ps ss. c # cs = ps @ sub @ ss"
    proof cases
      case 1
      then obtain ss where "c # cs = [] @ sub @ ss" by (auto simp: starts_with_iff)
      then show ?thesis by blast
    next
      case 2
      with Cons.IH obtain ps ss where "cs = ps @ sub @ ss" by blast
      then have "c # cs = (c # ps) @ sub @ ss" by simp
      then show ?thesis by blast
    qed
  next
    assume "\<exists>ps ss. c # cs = ps @ sub @ ss"
    then obtain ps ss where e: "c # cs = ps @ sub @ ss" by blast
    show "js_includes (c # cs) sub"
    proof (cases ps)
      case Nil
      with e have "starts_with (c # cs) sub" by (auto simp: starts_with_iff)
      then show ?thesis by simp
    next
      case (Cons p ps')
      with e have "cs = ps' @ sub @ ss" by simp
      with Cons.IH have "js_includes cs sub" by blast
      then show ?thesis by simp
    qed
  qed
qed

text \<open>The two nested index loops as one pass over the pairs of indices.\<close>

lemma nested_loop_product:
  "concat (map (\<lambda>i. concat (map (\<lambda>j. if C i j then [f i j] else []) ys)) xs) =
     map (\<lambda>(i, j). f i j) (filter (\<lambda>(i, j). C i j) (List.product xs ys))"
proof (induction xs)
  case Nil
  then show ?case by simp
next
  case (Cons x xs)
  have "concat (map (\<lambda>j. if C x j then [f x j] else []) ys) =
          map (\<lambda>(i, j). f i j) (filter (\<lambda>(i, j). C i j) (map (Pair x) ys))"
    by (induction ys) auto
  with Cons show ?case by simp
qed

lemma findSubstringTags_product:
  "findSubstringTags allTags =
     (let u = sort (set_add_all [] (map st_tag allTags)) in
      map (\<lambda>(i, j). \<lparr>substring = u ! i, superstring = u ! j\<rparr>)
        (filter (\<lambda>(i, j). i \<noteq> j \<and> js_includes (u ! j) (u ! i) \<and> u ! i \<noteq> u ! j)
          (List.product [0..<length u] [0..<length u])))"
proof -
  have "(if i \<noteq> j then if P then [x] else [] else []) = (if i \<noteq> j \<and> P then [x] else [])"
    for i j :: nat and P and x :: substring_pair
    by simp
  then show ?thesis
    unfolding findSubstringTags_def Let_def
    by (simp only: nested_loop_product)
qed

lemma pairs_of_distinct_set:
  assumes "distinct u"
  shows "set (map (\<lambda>(i, j). \<lparr>substring = u ! i, superstring = u ! j\<rparr>)
        (filter (\<lambda>(i, j). i \<noteq> j \<and> js_includes (u ! j) (u ! i) \<and> u ! i \<noteq> u ! j)
          (List.product [0..<length u] [0..<length u]))) =
     {\<lparr>substring = a, superstring = b\<rparr> | a b.
        a \<in> set u \<and> b \<in> set u \<and> a \<noteq> b \<and> (\<exists>ps ss. b = ps @ a @ ss)}"
  (is "?L = ?R")
proof (intro set_eqI iffI)
  fix x assume "x \<in> ?L"
  then obtain i j where ij: "i < length u" "j < length u" "js_includes (u ! j) (u ! i)"
    "u ! i \<noteq> u ! j" and x: "x = \<lparr>substring = u ! i, superstring = u ! j\<rparr>"
    by auto
  from ij(3) have "\<exists>ps ss. u ! j = ps @ u ! i @ ss" by (simp add: js_includes_iff)
  with ij x show "x \<in> ?R" by auto
next
  fix x assume "x \<in> ?R"
  then obtain a b where ab: "a \<in> set u" "b \<in> set u" "a \<noteq> b" "\<exists>ps ss. b = ps @ a @ ss"
    and x: "x = \<lparr>substring = a, superstring = b\<rparr>"
    by blast
  from ab(1,2) obtain i j where ij: "i < length u" "u ! i = a" "j < length u" "u ! j = b"
    by (auto simp: in_set_conv_nth)
  with ab(3) have "i \<noteq> j" by auto
  moreover from ab(4) ij have "js_includes (u ! j) (u ! i)" by (simp add: js_includes_iff)
  ultimately have "(i, j) \<in> set (filter
          (\<lambda>(i, j). i \<noteq> j \<and> js_includes (u ! j) (u ! i) \<and> u ! i \<noteq> u ! j)
          (List.product [0..<length u] [0..<length u]))"
    using ij ab(3) by simp
  then have "(\<lambda>(i, j). \<lparr>substring = u ! i, superstring = u ! j\<rparr>) (i, j) \<in> ?L"
    unfolding set_map by (rule imageI)
  with ij x show "x \<in> ?L" by simp
qed

lemma pairs_of_distinct_distinct:
  assumes "distinct u"
  shows "distinct (map (\<lambda>(i, j). \<lparr>substring = u ! i, superstring = u ! j\<rparr>)
        (filter (\<lambda>(i, j). i \<noteq> j \<and> js_includes (u ! j) (u ! i) \<and> u ! i \<noteq> u ! j)
          (List.product [0..<length u] [0..<length u])))"
proof -
  have "distinct (List.product [0..<length u] [0..<length u])"
    by (simp add: distinct_product)
  then have d: "distinct (filter
          (\<lambda>(i, j). i \<noteq> j \<and> js_includes (u ! j) (u ! i) \<and> u ! i \<noteq> u ! j)
          (List.product [0..<length u] [0..<length u]))"
    by (rule distinct_filter)
  have "inj_on (\<lambda>(i, j). \<lparr>substring = u ! i, superstring = u ! j\<rparr>)
          (set (List.product [0..<length u] [0..<length u]))"
    using assms by (auto simp: inj_on_def nth_eq_iff_index_eq)
  then have "inj_on (\<lambda>(i, j). \<lparr>substring = u ! i, superstring = u ! j\<rparr>)
          (set (filter (\<lambda>(i, j). i \<noteq> j \<and> js_includes (u ! j) (u ! i) \<and> u ! i \<noteq> u ! j)
          (List.product [0..<length u] [0..<length u])))"
    by (rule inj_on_subset) auto
  with d show ?thesis by (simp add: distinct_map)
qed

section \<open>The claims\<close>

subsection \<open>C1: a Start inside an open region\<close>

text \<open>
  Claim C1. When the validator processes a Start event while the stack is non-empty, it
  emits exactly one nested pair, whose outer is the value of the stack top at that moment,
  whose inner is the Start event and whose depth is the stack size plus one; the pair stays
  as emitted whatever events follow. Every Start event is pushed, whatever its tag and
  whatever the stack holds (and with an empty stack no pair is emitted), and a Start adds no
  error. The events START a, START b, END b, END a, for any tags \<open>a\<close> and \<open>b\<close>, give
  exactly the one pair of \<open>a\<close> and \<open>b\<close> at depth 2 and no error.
\<close>

theorem start_emits_one_nested_pair:
  "type e = START \<Longrightarrow>
     stack (process_event s e) = stack s @ [e]
   \<and> errors (process_event s e) = errors s
   \<and> (stack s = [] \<longrightarrow> nestedPairs (process_event s e) = nestedPairs s)
   \<and> (stack s \<noteq> [] \<longrightarrow>
        nestedPairs (process_event s e) =
          nestedPairs s @ [\<lparr>outer = last (stack s), inner = e, depth = length (stack s) + 1\<rparr>]
      \<and> take (length (nestedPairs s) + 1)
          (nestedPairs (foldl process_event (process_event s e) es)) =
          nestedPairs s @ [\<lparr>outer = last (stack s), inner = e, depth = length (stack s) + 1\<rparr>])
   \<and> analyse_events f
        [\<lparr>type = START, tag = a, line = la, file' = f\<rparr>,
         \<lparr>type = START, tag = b, line = lb, file' = f\<rparr>,
         \<lparr>type = END, tag = b, line = lc, file' = f\<rparr>,
         \<lparr>type = END, tag = a, line = ld, file' = f\<rparr>] =
       \<lparr>result_file = f,
        result_nestedPairs =
          [\<lparr>outer = \<lparr>type = START, tag = a, line = la, file' = f\<rparr>,
            inner = \<lparr>type = START, tag = b, line = lb, file' = f\<rparr>, depth = 2\<rparr>],
        result_errors = [], totalTags = 4\<rparr>"
proof (intro conjI impI)
  assume t: "type e = START"
  show "stack (process_event s e) = stack s @ [e]" using t by (simp add: process_event_START)
  show "errors (process_event s e) = errors s" using t by (simp add: process_event_START)
  show "nestedPairs (process_event s e) = nestedPairs s" if "stack s = []"
    using t that by (simp add: process_event_START)
  show *: "nestedPairs (process_event s e) =
          nestedPairs s @ [\<lparr>outer = last (stack s), inner = e, depth = length (stack s) + 1\<rparr>]"
    if "stack s \<noteq> []"
    using t that by (simp add: process_event_START)
  show "take (length (nestedPairs s) + 1)
          (nestedPairs (foldl process_event (process_event s e) es)) =
          nestedPairs s @ [\<lparr>outer = last (stack s), inner = e, depth = length (stack s) + 1\<rparr>]"
    if "stack s \<noteq> []"
    using nestedPairs_foldl_take [of "process_event s e" es] * [OF that] by simp
  show "analyse_events f
        [\<lparr>type = START, tag = a, line = la, file' = f\<rparr>,
         \<lparr>type = START, tag = b, line = lb, file' = f\<rparr>,
         \<lparr>type = END, tag = b, line = lc, file' = f\<rparr>,
         \<lparr>type = END, tag = a, line = ld, file' = f\<rparr>] =
       \<lparr>result_file = f,
        result_nestedPairs =
          [\<lparr>outer = \<lparr>type = START, tag = a, line = la, file' = f\<rparr>,
            inner = \<lparr>type = START, tag = b, line = lb, file' = f\<rparr>, depth = 2\<rparr>],
        result_errors = [], totalTags = 4\<rparr>"
    by (simp add: analyse_events_def process_events_def initial_state_def process_event_def
        unclosed_errors_def)
qed

text \<open>
  The theorem at a Start of \<open>b\<close> on line 3 inside an open \<open>a\<close>, followed by the two Ends;
  and the whole of \<^verbatim>\<open>findNestedTags\<close> on a five-line file with the two regions.
\<close>

theorem start_emits_one_nested_pair_witness:
  "type \<lparr>type = START, tag = ''b'', line = 3, file' = ''f.kt''\<rparr> = START
   \<and> stack \<lparr>stack = [\<lparr>type = START, tag = ''a'', line = 1, file' = ''f.kt''\<rparr>],
        nestedPairs = [], errors = []\<rparr> \<noteq> []
   \<and> nestedPairs (process_event
        \<lparr>stack = [\<lparr>type = START, tag = ''a'', line = 1, file' = ''f.kt''\<rparr>],
         nestedPairs = [], errors = []\<rparr>
        \<lparr>type = START, tag = ''b'', line = 3, file' = ''f.kt''\<rparr>) =
       [\<lparr>outer = \<lparr>type = START, tag = ''a'', line = 1, file' = ''f.kt''\<rparr>,
         inner = \<lparr>type = START, tag = ''b'', line = 3, file' = ''f.kt''\<rparr>, depth = 2\<rparr>]
   \<and> take 1 (nestedPairs (foldl process_event
        (process_event
          \<lparr>stack = [\<lparr>type = START, tag = ''a'', line = 1, file' = ''f.kt''\<rparr>],
           nestedPairs = [], errors = []\<rparr>
          \<lparr>type = START, tag = ''b'', line = 3, file' = ''f.kt''\<rparr>)
        [\<lparr>type = END, tag = ''b'', line = 4, file' = ''f.kt''\<rparr>,
         \<lparr>type = END, tag = ''a'', line = 5, file' = ''f.kt''\<rparr>])) =
       [\<lparr>outer = \<lparr>type = START, tag = ''a'', line = 1, file' = ''f.kt''\<rparr>,
         inner = \<lparr>type = START, tag = ''b'', line = 3, file' = ''f.kt''\<rparr>, depth = 2\<rparr>]
   \<and> findNestedTags
        (\<lambda>p. Some (''// [START a]'' @ CHR 0x0A # ''x = 1'' @ CHR 0x0A # ''// [START b]''
           @ CHR 0x0A # ''// [END b]'' @ CHR 0x0A # ''// [END a]''))
        ''f.kt'' =
       Some \<lparr>result_file = ''f.kt'',
         result_nestedPairs =
           [\<lparr>outer = \<lparr>type = START, tag = ''a'', line = 1, file' = ''f.kt''\<rparr>,
             inner = \<lparr>type = START, tag = ''b'', line = 3, file' = ''f.kt''\<rparr>, depth = 2\<rparr>],
         result_errors = [], totalTags = 4\<rparr>"
proof -
  have whole: "findNestedTags
        (\<lambda>p. Some (''// [START a]'' @ CHR 0x0A # ''x = 1'' @ CHR 0x0A # ''// [START b]''
           @ CHR 0x0A # ''// [END b]'' @ CHR 0x0A # ''// [END a]''))
        ''f.kt'' =
       Some \<lparr>result_file = ''f.kt'',
         result_nestedPairs =
           [\<lparr>outer = \<lparr>type = START, tag = ''a'', line = 1, file' = ''f.kt''\<rparr>,
             inner = \<lparr>type = START, tag = ''b'', line = 3, file' = ''f.kt''\<rparr>, depth = 2\<rparr>],
         result_errors = [], totalTags = 4\<rparr>"
    by code_simp
  note step = start_emits_one_nested_pair
    [of "\<lparr>type = START, tag = ''b'', line = 3, file' = ''f.kt''\<rparr>"
      "\<lparr>stack = [\<lparr>type = START, tag = ''a'', line = 1, file' = ''f.kt''\<rparr>],
        nestedPairs = [], errors = []\<rparr>"
      "[\<lparr>type = END, tag = ''b'', line = 4, file' = ''f.kt''\<rparr>,
        \<lparr>type = END, tag = ''a'', line = 5, file' = ''f.kt''\<rparr>]"]
  have "type \<lparr>type = START, tag = ''b'', line = 3, file' = ''f.kt''\<rparr> = START
   \<and> stack \<lparr>stack = [\<lparr>type = START, tag = ''a'', line = 1, file' = ''f.kt''\<rparr>],
        nestedPairs = [], errors = []\<rparr> \<noteq> []
   \<and> nestedPairs (process_event
        \<lparr>stack = [\<lparr>type = START, tag = ''a'', line = 1, file' = ''f.kt''\<rparr>],
         nestedPairs = [], errors = []\<rparr>
        \<lparr>type = START, tag = ''b'', line = 3, file' = ''f.kt''\<rparr>) =
       [\<lparr>outer = \<lparr>type = START, tag = ''a'', line = 1, file' = ''f.kt''\<rparr>,
         inner = \<lparr>type = START, tag = ''b'', line = 3, file' = ''f.kt''\<rparr>, depth = 2\<rparr>]
   \<and> take 1 (nestedPairs (foldl process_event
        (process_event
          \<lparr>stack = [\<lparr>type = START, tag = ''a'', line = 1, file' = ''f.kt''\<rparr>],
           nestedPairs = [], errors = []\<rparr>
          \<lparr>type = START, tag = ''b'', line = 3, file' = ''f.kt''\<rparr>)
        [\<lparr>type = END, tag = ''b'', line = 4, file' = ''f.kt''\<rparr>,
         \<lparr>type = END, tag = ''a'', line = 5, file' = ''f.kt''\<rparr>])) =
       [\<lparr>outer = \<lparr>type = START, tag = ''a'', line = 1, file' = ''f.kt''\<rparr>,
         inner = \<lparr>type = START, tag = ''b'', line = 3, file' = ''f.kt''\<rparr>, depth = 2\<rparr>]"
    using step by simp
  with whole show ?thesis by blast
qed

subsection \<open>C3: an End that does not name the open region\<close>

text \<open>
  Claim C3. When the validator processes an End event whose tag differs from the tag of
  the top frame of a non-empty stack, it emits exactly one MISMATCHED_END carrying the tag
  and line of the top frame and the tag and line of the End, and pops the stack all the
  same. So the events START a, END b with different tags give exactly that one error, an
  empty stack, and no UNCLOSED_START.
\<close>

theorem mismatched_end_reports_and_pops:
  "type e = END \<Longrightarrow> stack s \<noteq> [] \<Longrightarrow> tag (last (stack s)) \<noteq> tag e \<Longrightarrow>
     process_event s e =
       s\<lparr>errors := errors s @
            [MISMATCHED_END (tag (last (stack s))) (tag e) (line (last (stack s))) (line e)],
         stack := butlast (stack s)\<rparr>
   \<and> (a \<noteq> b \<longrightarrow>
        stack (process_events
          [\<lparr>type = START, tag = a, line = la, file' = f\<rparr>,
           \<lparr>type = END, tag = b, line = lb, file' = f\<rparr>]) = []
      \<and> analyse_events f
          [\<lparr>type = START, tag = a, line = la, file' = f\<rparr>,
           \<lparr>type = END, tag = b, line = lb, file' = f\<rparr>] =
         \<lparr>result_file = f, result_nestedPairs = [],
          result_errors = [MISMATCHED_END a b la lb], totalTags = 2\<rparr>)"
  by (simp add: process_event_END analyse_events_def process_events_def initial_state_def
      process_event_def unclosed_errors_def Let_def)

text \<open>
  The theorem at an End of \<open>b\<close> on line 3 closing an \<open>a\<close> opened on line 1, and
  \<^verbatim>\<open>findNestedTags\<close> on the three-line file that holds the two markers.
\<close>

theorem mismatched_end_reports_and_pops_witness:
  "type \<lparr>type = END, tag = ''b'', line = 3, file' = ''f.kt''\<rparr> = END
   \<and> stack \<lparr>stack = [\<lparr>type = START, tag = ''a'', line = 1, file' = ''f.kt''\<rparr>],
        nestedPairs = [], errors = []\<rparr> \<noteq> []
   \<and> tag (last (stack \<lparr>stack = [\<lparr>type = START, tag = ''a'', line = 1, file' = ''f.kt''\<rparr>],
        nestedPairs = [], errors = ([] :: structural_error list)\<rparr>)) \<noteq> ''b''
   \<and> process_event
        \<lparr>stack = [\<lparr>type = START, tag = ''a'', line = 1, file' = ''f.kt''\<rparr>],
         nestedPairs = [], errors = []\<rparr>
        \<lparr>type = END, tag = ''b'', line = 3, file' = ''f.kt''\<rparr> =
       \<lparr>stack = [], nestedPairs = [], errors = [MISMATCHED_END ''a'' ''b'' 1 3]\<rparr>
   \<and> findNestedTags
        (\<lambda>p. Some (''// [START a]'' @ CHR 0x0A # ''x = 1'' @ CHR 0x0A # ''// [END b]''))
        ''f.kt'' =
       Some \<lparr>result_file = ''f.kt'', result_nestedPairs = [],
         result_errors = [MISMATCHED_END ''a'' ''b'' 1 3], totalTags = 2\<rparr>"
proof -
  have whole: "findNestedTags
        (\<lambda>p. Some (''// [START a]'' @ CHR 0x0A # ''x = 1'' @ CHR 0x0A # ''// [END b]''))
        ''f.kt'' =
       Some \<lparr>result_file = ''f.kt'', result_nestedPairs = [],
         result_errors = [MISMATCHED_END ''a'' ''b'' 1 3], totalTags = 2\<rparr>"
    by code_simp
  note step = mismatched_end_reports_and_pops
    [of "\<lparr>type = END, tag = ''b'', line = 3, file' = ''f.kt''\<rparr>"
      "\<lparr>stack = [\<lparr>type = START, tag = ''a'', line = 1, file' = ''f.kt''\<rparr>],
        nestedPairs = [], errors = []\<rparr>"]
  have "type \<lparr>type = END, tag = ''b'', line = 3, file' = ''f.kt''\<rparr> = END
   \<and> stack \<lparr>stack = [\<lparr>type = START, tag = ''a'', line = 1, file' = ''f.kt''\<rparr>],
        nestedPairs = [], errors = []\<rparr> \<noteq> []
   \<and> tag (last (stack \<lparr>stack = [\<lparr>type = START, tag = ''a'', line = 1, file' = ''f.kt''\<rparr>],
        nestedPairs = [], errors = ([] :: structural_error list)\<rparr>)) \<noteq> ''b''
   \<and> process_event
        \<lparr>stack = [\<lparr>type = START, tag = ''a'', line = 1, file' = ''f.kt''\<rparr>],
         nestedPairs = [], errors = []\<rparr>
        \<lparr>type = END, tag = ''b'', line = 3, file' = ''f.kt''\<rparr> =
       \<lparr>stack = [], nestedPairs = [], errors = [MISMATCHED_END ''a'' ''b'' 1 3]\<rparr>"
    using step by simp
  with whole show ?thesis by blast
qed

subsection \<open>C4: an End with nothing open\<close>

text \<open>
  Claim C4 as the specification states it, UNMATCHED_END exactly when the stack is empty
  or holds no frame of the tag, fails: with \<open>a\<close> open, an End of \<open>b\<close> finds its tag in no
  frame, and the validator reports MISMATCHED_END, not UNMATCHED_END.
\<close>

theorem unmatched_end_absent_tag_counterexample:
  "\<not> ((UNMATCHED_END ''b'' 2 \<in> set (errors (process_event
          \<lparr>stack = [\<lparr>type = START, tag = ''a'', line = 1, file' = ''f.kt''\<rparr>],
           nestedPairs = [], errors = []\<rparr>
          \<lparr>type = END, tag = ''b'', line = 2, file' = ''f.kt''\<rparr>)))
       = (stack \<lparr>stack = [\<lparr>type = START, tag = ''a'', line = 1, file' = ''f.kt''\<rparr>],
           nestedPairs = [], errors = ([] :: structural_error list)\<rparr> = []
          \<or> ''b'' \<notin> set (map tag
               (stack \<lparr>stack = [\<lparr>type = START, tag = ''a'', line = 1, file' = ''f.kt''\<rparr>],
                  nestedPairs = [], errors = ([] :: structural_error list)\<rparr>))))"
  by (simp add: process_event_END)

text \<open>
  Claim C4, amended. When the validator processes an End event, it emits an UNMATCHED_END
  with the tag and line of the event exactly when the stack is empty; the stack then stays
  empty. With a non-empty stack the End emits no UNMATCHED_END at all, whether or not a
  frame of its tag is open.
\<close>

theorem unmatched_end_iff_stack_empty:
  "type e = END \<Longrightarrow>
     (UNMATCHED_END (tag e) (line e) \<in> set (drop (length (errors s)) (errors (process_event s e))))
       = (stack s = [])
   \<and> (stack s = [] \<longrightarrow>
        errors (process_event s e) = errors s @ [UNMATCHED_END (tag e) (line e)]
      \<and> stack (process_event s e) = [])
   \<and> (stack s \<noteq> [] \<longrightarrow>
        (\<forall>t l. UNMATCHED_END t l \<notin> set (drop (length (errors s)) (errors (process_event s e)))))"
  by (simp add: process_event_END)

text \<open>The theorem at an End of \<open>x\<close> met with an empty stack, and the file that holds only it.\<close>

theorem unmatched_end_iff_stack_empty_witness:
  "type \<lparr>type = END, tag = ''x'', line = 1, file' = ''f.kt''\<rparr> = END
   \<and> stack initial_state = []
   \<and> errors (process_event initial_state \<lparr>type = END, tag = ''x'', line = 1, file' = ''f.kt''\<rparr>) =
       [UNMATCHED_END ''x'' 1]
   \<and> UNMATCHED_END ''b'' 2 \<notin> set (errors (process_event
        \<lparr>stack = [\<lparr>type = START, tag = ''a'', line = 1, file' = ''f.kt''\<rparr>],
         nestedPairs = [], errors = []\<rparr>
        \<lparr>type = END, tag = ''b'', line = 2, file' = ''f.kt''\<rparr>))
   \<and> findNestedTags (\<lambda>p. Some ''// [END x]'') ''f.kt'' =
       Some \<lparr>result_file = ''f.kt'', result_nestedPairs = [],
         result_errors = [UNMATCHED_END ''x'' 1], totalTags = 1\<rparr>"
proof -
  have whole: "findNestedTags (\<lambda>p. Some ''// [END x]'') ''f.kt'' =
       Some \<lparr>result_file = ''f.kt'', result_nestedPairs = [],
         result_errors = [UNMATCHED_END ''x'' 1], totalTags = 1\<rparr>"
    by code_simp
  note empty = unmatched_end_iff_stack_empty
    [of "\<lparr>type = END, tag = ''x'', line = 1, file' = ''f.kt''\<rparr>" initial_state]
  note open_a = unmatched_end_iff_stack_empty
    [of "\<lparr>type = END, tag = ''b'', line = 2, file' = ''f.kt''\<rparr>"
      "\<lparr>stack = [\<lparr>type = START, tag = ''a'', line = 1, file' = ''f.kt''\<rparr>],
        nestedPairs = [], errors = []\<rparr>"]
  have "type \<lparr>type = END, tag = ''x'', line = 1, file' = ''f.kt''\<rparr> = END
   \<and> stack initial_state = []
   \<and> errors (process_event initial_state \<lparr>type = END, tag = ''x'', line = 1, file' = ''f.kt''\<rparr>) =
       [UNMATCHED_END ''x'' 1]
   \<and> UNMATCHED_END ''b'' 2 \<notin> set (errors (process_event
        \<lparr>stack = [\<lparr>type = START, tag = ''a'', line = 1, file' = ''f.kt''\<rparr>],
         nestedPairs = [], errors = []\<rparr>
        \<lparr>type = END, tag = ''b'', line = 2, file' = ''f.kt''\<rparr>))"
    using empty open_a by (simp add: initial_state_def)
  with whole show ?thesis by blast
qed

subsection \<open>C6: regions left open\<close>

text \<open>
  Claim C6. After the events of a file are processed, each frame still on the stack gives
  exactly one UNCLOSED_START with the tag and line of the frame, appended after the errors
  of the event loop in the order of the stack, bottom first; the stack holds its frames in
  the order of their events, so the outermost region comes first; and the event loop itself
  never emits an UNCLOSED_START. A lone Start of \<open>x\<close> gives exactly one UNCLOSED_START
  of \<open>x\<close>.
\<close>

theorem unclosed_starts_reported_in_push_order:
  "result_errors (analyse_events f es) =
     errors (process_events es)
     @ map (\<lambda>frame. UNCLOSED_START (tag frame) (line frame)) (stack (process_events es))
   \<and> subseq (stack (process_events es)) es
   \<and> (\<forall>t l. UNCLOSED_START t l \<notin> set (errors (process_events es)))
   \<and> result_errors (analyse_events f [\<lparr>type = START, tag = x, line = lx, file' = f\<rparr>]) =
       [UNCLOSED_START x lx]"
proof (intro conjI allI)
  show "result_errors (analyse_events f es) =
     errors (process_events es)
     @ map (\<lambda>frame. UNCLOSED_START (tag frame) (line frame)) (stack (process_events es))"
    by (simp add: analyse_events_def unclosed_errors_def Let_def)
  show "subseq (stack (process_events es)) es" by (rule stack_subseq_events)
  show "UNCLOSED_START t l \<notin> set (errors (process_events es))" for t l
    by (rule no_unclosed_in_loop)
  show "result_errors (analyse_events f [\<lparr>type = START, tag = x, line = lx, file' = f\<rparr>]) =
       [UNCLOSED_START x lx]"
    by (simp add: analyse_events_def process_events_def initial_state_def process_event_def
        unclosed_errors_def)
qed

text \<open>
  Two regions left open, the outer one reported first; and \<^verbatim>\<open>findNestedTags\<close> on the file
  that holds a single Start.
\<close>

theorem unclosed_starts_reported_in_push_order_witness:
  "result_errors (analyse_events ''f.kt''
      [\<lparr>type = START, tag = ''a'', line = 1, file' = ''f.kt''\<rparr>,
       \<lparr>type = START, tag = ''b'', line = 2, file' = ''f.kt''\<rparr>]) =
     [UNCLOSED_START ''a'' 1, UNCLOSED_START ''b'' 2]
   \<and> findNestedTags (\<lambda>p. Some ''// [START x]'') ''f.kt'' =
       Some \<lparr>result_file = ''f.kt'', result_nestedPairs = [],
         result_errors = [UNCLOSED_START ''x'' 1], totalTags = 1\<rparr>"
proof -
  have whole: "findNestedTags (\<lambda>p. Some ''// [START x]'') ''f.kt'' =
       Some \<lparr>result_file = ''f.kt'', result_nestedPairs = [],
         result_errors = [UNCLOSED_START ''x'' 1], totalTags = 1\<rparr>"
    by code_simp
  note report = unclosed_starts_reported_in_push_order
    [of "''f.kt''"
      "[\<lparr>type = START, tag = ''a'', line = 1, file' = ''f.kt''\<rparr>,
        \<lparr>type = START, tag = ''b'', line = 2, file' = ''f.kt''\<rparr>]"]
  have "result_errors (analyse_events ''f.kt''
      [\<lparr>type = START, tag = ''a'', line = 1, file' = ''f.kt''\<rparr>,
       \<lparr>type = START, tag = ''b'', line = 2, file' = ''f.kt''\<rparr>]) =
     [UNCLOSED_START ''a'' 1, UNCLOSED_START ''b'' 2]"
    using report by (simp add: process_events_def initial_state_def process_event_def)
  with whole show ?thesis by blast
qed

subsection \<open>C9: the depth of a nested pair\<close>

text \<open>
  Claim C9. Every nested pair the validator reports for an event sequence has a Start
  event of the sequence as its inner event, and its depth is the number of Start events
  that have occurred up to and including that event and are not yet closed there; so the
  depth never exceeds that number, nor the number of Start events up to there.
\<close>

theorem nested_depth_bounded_by_open_starts:
  "p \<in> set (result_nestedPairs (analyse_events f es)) \<Longrightarrow>
     \<exists>pre post. es = pre @ inner p # post \<and> type (inner p) = START
       \<and> depth p \<le> unclosed_starts (pre @ [inner p])
       \<and> depth p = unclosed_starts (pre @ [inner p])
       \<and> depth p \<le> length (filter (\<lambda>e. type e = START) (pre @ [inner p]))"
proof -
  assume "p \<in> set (result_nestedPairs (analyse_events f es))"
  then have "p \<in> set (nestedPairs (process_events es))"
    by (simp add: analyse_events_def Let_def)
  from nested_pair_position [OF this] obtain pre post
    where *: "es = pre @ inner p # post" "type (inner p) = START"
      "depth p = unclosed_starts (pre @ [inner p])"
    by blast
  with unclosed_starts_le_starts [of "pre @ [inner p]"]
  have "depth p \<le> length (filter (\<lambda>e. type e = START) (pre @ [inner p]))" by simp
  with * show ?thesis by auto
qed

text \<open>
  A Start of \<open>c\<close> after a closed \<open>b\<close>, inside \<open>a\<close>: three Starts so far, two of them open.
\<close>

theorem nested_depth_bounded_by_open_starts_witness:
  "\<lparr>outer = \<lparr>type = START, tag = ''a'', line = 1, file' = ''f.kt''\<rparr>,
    inner = \<lparr>type = START, tag = ''c'', line = 4, file' = ''f.kt''\<rparr>, depth = 2\<rparr>
     \<in> set (result_nestedPairs (analyse_events ''f.kt''
        [\<lparr>type = START, tag = ''a'', line = 1, file' = ''f.kt''\<rparr>,
         \<lparr>type = START, tag = ''b'', line = 2, file' = ''f.kt''\<rparr>,
         \<lparr>type = END, tag = ''b'', line = 3, file' = ''f.kt''\<rparr>,
         \<lparr>type = START, tag = ''c'', line = 4, file' = ''f.kt''\<rparr>]))
   \<and> (\<exists>pre post.
        [\<lparr>type = START, tag = ''a'', line = 1, file' = ''f.kt''\<rparr>,
         \<lparr>type = START, tag = ''b'', line = 2, file' = ''f.kt''\<rparr>,
         \<lparr>type = END, tag = ''b'', line = 3, file' = ''f.kt''\<rparr>,
         \<lparr>type = START, tag = ''c'', line = 4, file' = ''f.kt''\<rparr>] =
          pre @ \<lparr>type = START, tag = ''c'', line = 4, file' = ''f.kt''\<rparr> # post
        \<and> (2::nat) \<le> unclosed_starts
              (pre @ [\<lparr>type = START, tag = ''c'', line = 4, file' = ''f.kt''\<rparr>])
        \<and> (2::nat) \<le> length (filter (\<lambda>e. type e = START)
              (pre @ [\<lparr>type = START, tag = ''c'', line = 4, file' = ''f.kt''\<rparr>])))
   \<and> unclosed_starts
        [\<lparr>type = START, tag = ''a'', line = 1, file' = ''f.kt''\<rparr>,
         \<lparr>type = START, tag = ''b'', line = 2, file' = ''f.kt''\<rparr>,
         \<lparr>type = END, tag = ''b'', line = 3, file' = ''f.kt''\<rparr>,
         \<lparr>type = START, tag = ''c'', line = 4, file' = ''f.kt''\<rparr>] = 2"
proof -
  have member: "\<lparr>outer = \<lparr>type = START, tag = ''a'', line = 1, file' = ''f.kt''\<rparr>,
    inner = \<lparr>type = START, tag = ''c'', line = 4, file' = ''f.kt''\<rparr>, depth = 2\<rparr>
     \<in> set (result_nestedPairs (analyse_events ''f.kt''
        [\<lparr>type = START, tag = ''a'', line = 1, file' = ''f.kt''\<rparr>,
         \<lparr>type = START, tag = ''b'', line = 2, file' = ''f.kt''\<rparr>,
         \<lparr>type = END, tag = ''b'', line = 3, file' = ''f.kt''\<rparr>,
         \<lparr>type = START, tag = ''c'', line = 4, file' = ''f.kt''\<rparr>]))"
    by (simp add: analyse_events_def process_events_def initial_state_def process_event_def)
  have count: "unclosed_starts
        [\<lparr>type = START, tag = ''a'', line = 1, file' = ''f.kt''\<rparr>,
         \<lparr>type = START, tag = ''b'', line = 2, file' = ''f.kt''\<rparr>,
         \<lparr>type = END, tag = ''b'', line = 3, file' = ''f.kt''\<rparr>,
         \<lparr>type = START, tag = ''c'', line = 4, file' = ''f.kt''\<rparr>] = 2"
    by (simp add: unclosed_starts_def)
  from nested_depth_bounded_by_open_starts [OF member] obtain pre post
    where "[\<lparr>type = START, tag = ''a'', line = 1, file' = ''f.kt''\<rparr>,
         \<lparr>type = START, tag = ''b'', line = 2, file' = ''f.kt''\<rparr>,
         \<lparr>type = END, tag = ''b'', line = 3, file' = ''f.kt''\<rparr>,
         \<lparr>type = START, tag = ''c'', line = 4, file' = ''f.kt''\<rparr>] =
          pre @ \<lparr>type = START, tag = ''c'', line = 4, file' = ''f.kt''\<rparr> # post"
      and "(2::nat) \<le> unclosed_starts
              (pre @ [\<lparr>type = START, tag = ''c'', line = 4, file' = ''f.kt''\<rparr>])"
      and "(2::nat) \<le> length (filter (\<lambda>e. type e = START)
              (pre @ [\<lparr>type = START, tag = ''c'', line = 4, file' = ''f.kt''\<rparr>]))"
    by auto
  with member count show ?thesis by blast
qed

subsection \<open>C10: properly nested events\<close>

text \<open>
  Claim C10. For every properly nested event sequence, where every Start is closed later
  by an End of the same tag and the region opened last is closed first, the validator
  reports no structural error and its stack is empty after the last event.
\<close>

theorem properly_nested_no_errors:
  "properly_nested es \<Longrightarrow>
     result_errors (analyse_events f es) = [] \<and> stack (process_events es) = []"
  using foldl_properly_nested [of es initial_state]
  by (simp add: analyse_events_def process_events_def Let_def unclosed_errors_def
      initial_state_def)

text \<open>The region \<open>b\<close> inside the region \<open>a\<close>, followed by the region \<open>c\<close>.\<close>

theorem properly_nested_no_errors_witness:
  "properly_nested
     [\<lparr>type = START, tag = ''a'', line = 1, file' = ''f.kt''\<rparr>,
      \<lparr>type = START, tag = ''b'', line = 2, file' = ''f.kt''\<rparr>,
      \<lparr>type = END, tag = ''b'', line = 3, file' = ''f.kt''\<rparr>,
      \<lparr>type = END, tag = ''a'', line = 4, file' = ''f.kt''\<rparr>,
      \<lparr>type = START, tag = ''c'', line = 5, file' = ''f.kt''\<rparr>,
      \<lparr>type = END, tag = ''c'', line = 6, file' = ''f.kt''\<rparr>]
   \<and> result_errors (analyse_events ''f.kt''
     [\<lparr>type = START, tag = ''a'', line = 1, file' = ''f.kt''\<rparr>,
      \<lparr>type = START, tag = ''b'', line = 2, file' = ''f.kt''\<rparr>,
      \<lparr>type = END, tag = ''b'', line = 3, file' = ''f.kt''\<rparr>,
      \<lparr>type = END, tag = ''a'', line = 4, file' = ''f.kt''\<rparr>,
      \<lparr>type = START, tag = ''c'', line = 5, file' = ''f.kt''\<rparr>,
      \<lparr>type = END, tag = ''c'', line = 6, file' = ''f.kt''\<rparr>]) = []
   \<and> stack (process_events
     [\<lparr>type = START, tag = ''a'', line = 1, file' = ''f.kt''\<rparr>,
      \<lparr>type = START, tag = ''b'', line = 2, file' = ''f.kt''\<rparr>,
      \<lparr>type = END, tag = ''b'', line = 3, file' = ''f.kt''\<rparr>,
      \<lparr>type = END, tag = ''a'', line = 4, file' = ''f.kt''\<rparr>,
      \<lparr>type = START, tag = ''c'', line = 5, file' = ''f.kt''\<rparr>,
      \<lparr>type = END, tag = ''c'', line = 6, file' = ''f.kt''\<rparr>]) = []"
proof -
  let ?a1 = "\<lparr>type = START, tag = ''a'', line = 1, file' = ''f.kt''\<rparr>"
  let ?b1 = "\<lparr>type = START, tag = ''b'', line = 2, file' = ''f.kt''\<rparr>"
  let ?b2 = "\<lparr>type = END, tag = ''b'', line = 3, file' = ''f.kt''\<rparr>"
  let ?a2 = "\<lparr>type = END, tag = ''a'', line = 4, file' = ''f.kt''\<rparr>"
  let ?c1 = "\<lparr>type = START, tag = ''c'', line = 5, file' = ''f.kt''\<rparr>"
  let ?c2 = "\<lparr>type = END, tag = ''c'', line = 6, file' = ''f.kt''\<rparr>"
  have "properly_nested (?b1 # [] @ [?b2])" by (rule pn_region [OF pn_empty]) simp_all
  then have "properly_nested (?a1 # (?b1 # [] @ [?b2]) @ [?a2])" by (rule pn_region) simp_all
  moreover have "properly_nested (?c1 # [] @ [?c2])" by (rule pn_region [OF pn_empty]) simp_all
  ultimately have "properly_nested ((?a1 # (?b1 # [] @ [?b2]) @ [?a2]) @ (?c1 # [] @ [?c2]))"
    by (rule pn_sequence)
  then have nested: "properly_nested [?a1, ?b1, ?b2, ?a2, ?c1, ?c2]" by simp
  from nested properly_nested_no_errors [OF nested, of "''f.kt''"] show ?thesis by blast
qed

subsection \<open>C2: the order of the events of a file\<close>




subsection \<open>C8: the tag of an event\<close>

text \<open>
  Claim C8. Every event the tokenizer emits is to have a non-empty tag. The pattern guards
  the name with \<^verbatim>\<open>+\<close>, and the guard holds for \<^verbatim>\<open>[START]\<close> and \<^verbatim>\<open>[START ]\<close>, which
  give no event. It does not hold for \<^verbatim>\<open>[START  ]\<close>: the whitespace run gives back its
  second space, the name group captures it, and \<^verbatim>\<open>trim\<close>, applied after the match with
  no check of its result, leaves the empty string. The tokenizer emits an event with the
  empty tag there.
\<close>

theorem blank_name_empty_tag:
  "parseTagEvents (\<lambda>p. Some ''[START]'') ''f.kt'' = []
   \<and> parseTagEvents (\<lambda>p. Some ''[START ]'') ''f.kt'' = []
   \<and> parseTagEvents (\<lambda>p. Some ''[START  ]'') ''f.kt'' =
       [\<lparr>type = START, tag = [], line = 1, file' = ''f.kt''\<rparr>]"
  by code_simp

subsection \<open>C7: files without events\<close>

text \<open>
  Claim C7. A file that cannot be read has no events, and neither has a file whose text
  holds no opening bracket. For a file without events \<^verbatim>\<open>findNestedTags\<close> returns no
  result, the accumulators of the scan stay as they are (no nested pair, no error, no
  count), and the scan of a list of files gives what it gives with that file left out: it
  goes on with the remaining files.
\<close>

theorem file_without_events_contributes_nothing:
  "(readFile f = None \<longrightarrow> parseTagEvents readFile f = [])
   \<and> (CHR ''['' \<notin> set content \<and> readFile f = Some content \<longrightarrow> parseTagEvents readFile f = [])
   \<and> (parseTagEvents readFile f = [] \<longrightarrow>
        findNestedTags readFile f = None
      \<and> scan_file readFile relative acc f = acc
      \<and> scan_files readFile relative (before @ f # after) =
          scan_files readFile relative (before @ after))"
proof (intro conjI impI)
  show "parseTagEvents readFile f = []" if "readFile f = None"
    using that by (simp add: parseTagEvents_def)
  show "parseTagEvents readFile f = []" if "CHR ''['' \<notin> set content \<and> readFile f = Some content"
    using that no_bracket_no_events by blast
  assume a: "parseTagEvents readFile f = []"
  then show n: "findNestedTags readFile f = None" by (simp add: findNestedTags_def)
  then show s: "scan_file readFile relative acc f = acc" for acc by (simp add: scan_file_def)
  show "scan_files readFile relative (before @ f # after) =
          scan_files readFile relative (before @ after)"
    by (simp add: scan_files_def s)
qed

text \<open>
  An unreadable file between two files with a marker each, and a readable file without
  markers.
\<close>

theorem file_without_events_contributes_nothing_witness:
  "(\<lambda>p. if p = ''bad.bin'' then None else Some ''// [START x]'') ''bad.bin'' = None
   \<and> parseTagEvents (\<lambda>p. if p = ''bad.bin'' then None else Some ''// [START x]'') ''bad.bin'' = []
   \<and> findNestedTags (\<lambda>p. if p = ''bad.bin'' then None else Some ''// [START x]'') ''bad.bin''
       = None
   \<and> scan_files (\<lambda>p. if p = ''bad.bin'' then None else Some ''// [START x]'') (\<lambda>p. p)
       ([''a.kt''] @ ''bad.bin'' # [''b.kt'']) =
     scan_files (\<lambda>p. if p = ''bad.bin'' then None else Some ''// [START x]'') (\<lambda>p. p)
       ([''a.kt''] @ [''b.kt''])
   \<and> CHR ''['' \<notin> set ''plain text''
   \<and> parseTagEvents (\<lambda>p. Some ''plain text'') ''notes.txt'' = []
   \<and> scan_files (\<lambda>p. if p = ''bad.bin'' then None else Some ''// [START x]'') (\<lambda>p. p)
       [''a.kt'', ''bad.bin'', ''b.kt''] =
     \<lparr>allNested = [],
      allErrors = [(UNCLOSED_START ''x'' 1, ''a.kt''), (UNCLOSED_START ''x'' 1, ''b.kt'')],
      filesWithTags = 2\<rparr>"
proof -
  let ?readFile = "\<lambda>p. if p = ''bad.bin'' then None else Some ''// [START x]''"
  have unreadable: "?readFile ''bad.bin'' = None" by simp
  note skipped = file_without_events_contributes_nothing
    [of ?readFile "''bad.bin''" "''''" "\<lambda>p. p" _ "[''a.kt'']" "[''b.kt'']"]
  from skipped unreadable have none: "parseTagEvents ?readFile ''bad.bin'' = []" by blast
  with skipped have rest: "findNestedTags ?readFile ''bad.bin'' = None"
    "scan_files ?readFile (\<lambda>p. p) ([''a.kt''] @ ''bad.bin'' # [''b.kt'']) =
     scan_files ?readFile (\<lambda>p. p) ([''a.kt''] @ [''b.kt''])"
    by blast+
  have plain: "CHR ''['' \<notin> set ''plain text''" by simp
  have readable: "(\<lambda>p :: string. Some ''plain text'') ''notes.txt'' = Some ''plain text''"
    by simp
  from file_without_events_contributes_nothing
    [of "\<lambda>p. Some ''plain text''" "''notes.txt''" "''plain text''"] plain readable
  have no_markers: "parseTagEvents (\<lambda>p. Some ''plain text'') ''notes.txt'' = []" by blast
  have total: "scan_files ?readFile (\<lambda>p. p) [''a.kt'', ''bad.bin'', ''b.kt''] =
     \<lparr>allNested = [],
      allErrors = [(UNCLOSED_START ''x'' 1, ''a.kt''), (UNCLOSED_START ''x'' 1, ''b.kt'')],
      filesWithTags = 2\<rparr>"
    by code_simp
  from unreadable none rest plain no_markers total show ?thesis by blast
qed

subsection \<open>C5: tag names inside other tag names\<close>

text \<open>
  Claim C5. The pairs \<^verbatim>\<open>findSubstringTags\<close> returns are exactly the pairs of two different
  tag names of its input such that the second contains the first as a contiguous run of
  characters, each pair once. For the tags \<open>foo\<close>, \<open>foo_bar\<close> and \<open>baz\<close> it returns the one
  pair of \<open>foo\<close> in \<open>foo_bar\<close>, and \<open>baz\<close> is in no pair.
\<close>

theorem findSubstringTags_exact:
  "set (findSubstringTags allTags) =
     {\<lparr>substring = a, superstring = b\<rparr> | a b.
        a \<in> st_tag ` set allTags \<and> b \<in> st_tag ` set allTags \<and> a \<noteq> b
        \<and> (\<exists>ps ss. b = ps @ a @ ss)}
   \<and> distinct (findSubstringTags allTags)
   \<and> findSubstringTags
        [\<lparr>st_tag = ''foo'', st_file = f1, fullMatch = m1\<rparr>,
         \<lparr>st_tag = ''foo_bar'', st_file = f2, fullMatch = m2\<rparr>,
         \<lparr>st_tag = ''baz'', st_file = f3, fullMatch = m3\<rparr>] =
       [\<lparr>substring = ''foo'', superstring = ''foo_bar''\<rparr>]"
proof (intro conjI)
  let ?u = "sort (set_add_all [] (map st_tag allTags))"
  have d: "distinct ?u" by (rule uniqueTags_props)
  show "set (findSubstringTags allTags) =
     {\<lparr>substring = a, superstring = b\<rparr> | a b.
        a \<in> st_tag ` set allTags \<and> b \<in> st_tag ` set allTags \<and> a \<noteq> b
        \<and> (\<exists>ps ss. b = ps @ a @ ss)}"
    unfolding findSubstringTags_product Let_def pairs_of_distinct_set [OF d]
    by (simp only: uniqueTags_props)
  show "distinct (findSubstringTags allTags)"
    unfolding findSubstringTags_product Let_def by (rule pairs_of_distinct_distinct [OF d])
  have u: "sort (set_add_all [] [''foo'', ''foo_bar'', ''baz'']) = [''baz'', ''foo'', ''foo_bar'']"
    by code_simp
  show "findSubstringTags
        [\<lparr>st_tag = ''foo'', st_file = f1, fullMatch = m1\<rparr>,
         \<lparr>st_tag = ''foo_bar'', st_file = f2, fullMatch = m2\<rparr>,
         \<lparr>st_tag = ''baz'', st_file = f3, fullMatch = m3\<rparr>] =
       [\<lparr>substring = ''foo'', superstring = ''foo_bar''\<rparr>]"
    by (simp add: findSubstringTags_def u upt_rec)
qed

text \<open>
  A tag found in two files counts once; \<open>foo\<close> is in \<open>foo_bar\<close>, and \<open>foo_bar\<close> is not in
  \<open>foo\<close>.
\<close>

theorem findSubstringTags_exact_witness:
  "\<lparr>substring = ''foo'', superstring = ''foo_bar''\<rparr> \<in>
     set (findSubstringTags
        [\<lparr>st_tag = ''foo_bar'', st_file = ''a.kt'', fullMatch = ''[START foo_bar]''\<rparr>,
         \<lparr>st_tag = ''foo'', st_file = ''b.kt'', fullMatch = ''[START foo]''\<rparr>,
         \<lparr>st_tag = ''foo'', st_file = ''c.kt'', fullMatch = ''[START  foo]''\<rparr>])
   \<and> \<lparr>substring = ''foo_bar'', superstring = ''foo''\<rparr> \<notin>
     set (findSubstringTags
        [\<lparr>st_tag = ''foo_bar'', st_file = ''a.kt'', fullMatch = ''[START foo_bar]''\<rparr>,
         \<lparr>st_tag = ''foo'', st_file = ''b.kt'', fullMatch = ''[START foo]''\<rparr>,
         \<lparr>st_tag = ''foo'', st_file = ''c.kt'', fullMatch = ''[START  foo]''\<rparr>])
   \<and> findSubstringTags
        [\<lparr>st_tag = ''foo_bar'', st_file = ''a.kt'', fullMatch = ''[START foo_bar]''\<rparr>,
         \<lparr>st_tag = ''foo'', st_file = ''b.kt'', fullMatch = ''[START foo]''\<rparr>,
         \<lparr>st_tag = ''foo'', st_file = ''c.kt'', fullMatch = ''[START  foo]''\<rparr>] =
       [\<lparr>substring = ''foo'', superstring = ''foo_bar''\<rparr>]"
proof -
  have whole: "findSubstringTags
        [\<lparr>st_tag = ''foo_bar'', st_file = ''a.kt'', fullMatch = ''[START foo_bar]''\<rparr>,
         \<lparr>st_tag = ''foo'', st_file = ''b.kt'', fullMatch = ''[START foo]''\<rparr>,
         \<lparr>st_tag = ''foo'', st_file = ''c.kt'', fullMatch = ''[START  foo]''\<rparr>] =
       [\<lparr>substring = ''foo'', superstring = ''foo_bar''\<rparr>]"
    by code_simp
  have "\<lparr>substring = ''foo'', superstring = ''foo_bar''\<rparr> \<in>
     set (findSubstringTags
        [\<lparr>st_tag = ''foo_bar'', st_file = ''a.kt'', fullMatch = ''[START foo_bar]''\<rparr>,
         \<lparr>st_tag = ''foo'', st_file = ''b.kt'', fullMatch = ''[START foo]''\<rparr>,
         \<lparr>st_tag = ''foo'', st_file = ''c.kt'', fullMatch = ''[START  foo]''\<rparr>])
   \<and> \<lparr>substring = ''foo_bar'', superstring = ''foo''\<rparr> \<notin>
     set (findSubstringTags
        [\<lparr>st_tag = ''foo_bar'', st_file = ''a.kt'', fullMatch = ''[START foo_bar]''\<rparr>,
         \<lparr>st_tag = ''foo'', st_file = ''b.kt'', fullMatch = ''[START foo]''\<rparr>,
         \<lparr>st_tag = ''foo'', st_file = ''c.kt'', fullMatch = ''[START  foo]''\<rparr>])"
    by (simp add: findSubstringTags_exact [THEN conjunct1] js_includes_iff [symmetric])
  with whole show ?thesis by blast
qed

end
